theory Spec2Isabelle
  imports Complex_Main "HOL-Library.Log_Nat"
begin

section \<open>Python floats\<close>

text \<open>
  Every number the program computes with is a Python \<^verbatim>\<open>float\<close>: \<^verbatim>\<open>prompt_float\<close> returns
  \<^verbatim>\<open>float(raw)\<close>, and the arithmetic of \<^verbatim>\<open>euler_method\<close>, \<^verbatim>\<open>smooth_exact_curve\<close> and
  \<^verbatim>\<open>compute_max_error\<close> is float arithmetic. A Python float is an IEEE 754 binary64 number,
  and each of \<^verbatim>\<open>+ - * /\<close> returns the exact result rounded to the nearest binary64 number,
  ties to the even significand. The model keeps the finite floats, as the real numbers they
  denote: \<open>rnd\<close> rounds a real to 53 significant bits (fewer below \<open>pow2 (- 1022)\<close>, where the
  spacing stays \<open>pow2 (- 1074)\<close>). Overflow to \<^verbatim>\<open>inf\<close> and \<^verbatim>\<open>nan\<close> are outside the model: a
  result of magnitude \<open>pow2 1024\<close> or more is kept as the rounded real.
\<close>

definition pow2 :: "int \<Rightarrow> real" where
  "pow2 e = (if 0 \<le> e then 2 ^ nat e else 1 / 2 ^ nat (- e))"

definition round_half_even :: "real \<Rightarrow> int" where
  "round_half_even x =
     (let n = \<lfloor>x\<rfloor>; r = x - of_int n
      in if r < 1 / 2 then n else if 1 / 2 < r then n + 1 else if even n then n else n + 1)"

text \<open>The binary exponent of a non-zero real: \<open>pow2 (exponent x) \<le> \<bar>x\<bar> < pow2 (exponent x + 1)\<close>.\<close>

definition exponent :: "real \<Rightarrow> int" where
  "exponent x =
     (if 1 \<le> \<bar>x\<bar> then bitlen \<lfloor>\<bar>x\<bar>\<rfloor> - 1
      else let n = \<lfloor>1 / \<bar>x\<bar>\<rfloor>
           in - bitlen (if of_int n = 1 / \<bar>x\<bar> then n - 1 else n))"

definition rnd :: "real \<Rightarrow> real" where
  "rnd x =
     (if x = 0 then 0
      else let u = pow2 (max (exponent x - 52) (- 1074))
           in of_int (round_half_even (x / u)) * u)"

datatype double = Double (val: real)

text \<open>\<^verbatim>\<open>float(x)\<close> of a decimal literal or of an integer: the nearest float.\<close>

definition float_of :: "real \<Rightarrow> double" where
  "float_of x = Double (rnd x)"

definition float_of_int :: "int \<Rightarrow> double" where
  "float_of_int i = float_of (of_int i)"


instantiation double :: "{zero,plus,minus,uminus,times,inverse,abs,linorder}"
begin

definition zero_double :: double where
  "zero_double = Double 0"

definition plus_double :: "double \<Rightarrow> double \<Rightarrow> double" where
  "plus_double x y = Double (rnd (val x + val y))"

definition minus_double :: "double \<Rightarrow> double \<Rightarrow> double" where
  "minus_double x y = Double (rnd (val x - val y))"

definition times_double :: "double \<Rightarrow> double \<Rightarrow> double" where
  "times_double x y = Double (rnd (val x * val y))"

definition divide_double :: "double \<Rightarrow> double \<Rightarrow> double" where
  "divide_double x y = Double (rnd (val x / val y))"

definition inverse_double :: "double \<Rightarrow> double" where
  "inverse_double x = Double (rnd (1 / val x))"

definition uminus_double :: "double \<Rightarrow> double" where
  "uminus_double x = Double (- val x)"

definition abs_double :: "double \<Rightarrow> double" where
  "abs_double x = Double \<bar>val x\<bar>"

definition less_eq_double :: "double \<Rightarrow> double \<Rightarrow> bool" where
  "less_eq_double x y = (val x \<le> val y)"

definition less_double :: "double \<Rightarrow> double \<Rightarrow> bool" where
  "less_double x y = (val x < val y)"

instance
  by standard (auto simp: less_eq_double_def less_double_def double.expand)

end

section \<open>The Euler integrator\<close>

text \<open>
  \<^verbatim>\<open>euler_method(f, t0, y0, t_end, delta_t)\<close>. The derivative \<open>f\<close> is any callable: it returns a
  float (\<open>Inr\<close>) or raises (\<open>Inl\<close>). The \<^verbatim>\<open>while\<close> loop may run forever, so the loop returns an
  option and \<open>None\<close> is the run that never returns. The third component of the result is what
  the \<^verbatim>\<open>except\<close> branch prints before \<^verbatim>\<open>break\<close>: the point and the exception, or \<open>None\<close> when
  the loop ended by its guard.
\<close>

type_synonym 'e trajectory = "double list \<times> double list \<times> (double \<times> double \<times> 'e) option"

partial_function (option) euler_loop ::
  "(double \<Rightarrow> double \<Rightarrow> 'e + double) \<Rightarrow> double \<Rightarrow> double \<Rightarrow> double \<Rightarrow> double \<Rightarrow>
   double list \<Rightarrow> double list \<Rightarrow> 'e trajectory option"
where
  "euler_loop f t_end delta_t t y t_values y_values =
     (if t < t_end then
        (case f y t of
           Inl e \<Rightarrow> Some (t_values, y_values, Some (y, t, e))
         | Inr slope \<Rightarrow>
             euler_loop f t_end delta_t (t + delta_t) (y + delta_t * slope)
               (t_values @ [t + delta_t]) (y_values @ [y + delta_t * slope]))
      else Some (t_values, y_values, None))"

definition euler_method ::
  "(double \<Rightarrow> double \<Rightarrow> 'e + double) \<Rightarrow> double \<Rightarrow> double \<Rightarrow> double \<Rightarrow> double \<Rightarrow>
   'e trajectory option"
where
  "euler_method f t0 y0 t_end delta_t = euler_loop f t_end delta_t t0 y0 [t0] [y0]"


text \<open>
  The claims about the integrator are stated with three auxiliary functions. \<open>recurrence\<close>
  says that two lists are a run of the loop body: each point after the first comes from its
  predecessor by one guarded step \<^verbatim>\<open>t_next = t + delta_t\<close>, \<^verbatim>\<open>y_next = y + delta_t * slope\<close>.
  \<open>ending\<close> says why the run stopped: the guard \<^verbatim>\<open>t < t_end\<close> failed at the last point, or
  \<open>f\<close> raised there. \<open>invocation f t_end delta_t n t y\<close> is the argument pair of the
  \<open>(n+1)\<close>-th call of \<open>f\<close> in the run from \<open>(t, y)\<close>, when the run gets that far.
\<close>

fun recurrence ::
  "(double \<Rightarrow> double \<Rightarrow> 'e + double) \<Rightarrow> double \<Rightarrow> double \<Rightarrow> double list \<Rightarrow> double list \<Rightarrow> bool"
where
  "recurrence f t_end delta_t (t # t' # ts) (y # y' # ys) =
     (t < t_end \<and>
      (case f y t of Inl e \<Rightarrow> False
       | Inr slope \<Rightarrow> t' = t + delta_t \<and> y' = y + delta_t * slope) \<and>
      recurrence f t_end delta_t (t' # ts) (y' # ys))"
| "recurrence f t_end delta_t [t] [y] = True"
| "recurrence f t_end delta_t ts ys = False"

definition ending ::
  "(double \<Rightarrow> double \<Rightarrow> 'e + double) \<Rightarrow> double \<Rightarrow> double list \<Rightarrow> double list \<Rightarrow>
   (double \<times> double \<times> 'e) option \<Rightarrow> bool"
where
  "ending f t_end ts ys r =
     (case r of
        None \<Rightarrow> \<not> last ts < t_end
      | Some (y, t, e) \<Rightarrow> y = last ys \<and> t = last ts \<and> t < t_end \<and> f y t = Inl e)"

fun invocation ::
  "(double \<Rightarrow> double \<Rightarrow> 'e + double) \<Rightarrow> double \<Rightarrow> double \<Rightarrow> nat \<Rightarrow> double \<Rightarrow> double \<Rightarrow>
   (double \<times> double) option"
where
  "invocation f t_end delta_t 0 t y = (if t < t_end then Some (y, t) else None)"
| "invocation f t_end delta_t (Suc n) t y =
     (if t < t_end then
        (case f y t of Inl e \<Rightarrow> None
         | Inr slope \<Rightarrow> invocation f t_end delta_t n (t + delta_t) (y + delta_t * slope))
      else None)"

text \<open>
  The \<open>t\<close>-values the loop appends when \<open>f\<close> never raises depend on \<open>t\<close>, \<open>delta_t\<close> and
  \<open>t_end\<close> only: \<open>t_run\<close> is the loop with the \<open>y\<close>-part left out, bounded by a step count.
\<close>

fun t_run :: "double \<Rightarrow> double \<Rightarrow> nat \<Rightarrow> double \<Rightarrow> double list option" where
  "t_run t_end delta_t 0 t = (if t < t_end then None else Some [])"
| "t_run t_end delta_t (Suc n) t =
     (if t < t_end then map_option ((#) (t + delta_t)) (t_run t_end delta_t n (t + delta_t))
      else Some [])"

section \<open>The exact-curve sampler\<close>

text \<open>
  \<^verbatim>\<open>smooth_exact_curve(g, t0, t_end, num_points)\<close>: \<^verbatim>\<open>num_points\<close> is a Python int, \<^verbatim>\<open>i * step\<close>
  converts \<open>i\<close> to a float first, and an exception of \<open>g\<close> is re-raised, so the result is the
  exception or the two lists.
\<close>

function sample_loop ::
  "(double \<Rightarrow> 'e + double) \<Rightarrow> double \<Rightarrow> double \<Rightarrow> int \<Rightarrow> int \<Rightarrow> double list \<Rightarrow> double list \<Rightarrow>
   'e + double list \<times> double list"
where
  "sample_loop g t0 step num_points i T Y =
     (if i < num_points then
        (case g (t0 + float_of_int i * step) of
           Inl e \<Rightarrow> Inl e
         | Inr y \<Rightarrow>
             sample_loop g t0 step num_points (i + 1) (T @ [t0 + float_of_int i * step]) (Y @ [y]))
      else Inr (T, Y))"
  by pat_completeness auto
termination
  by (relation "measure (\<lambda>(g, t0, step, num_points, i, T, Y). nat (num_points - i))") auto

definition smooth_exact_curve ::
  "(double \<Rightarrow> 'e + double) \<Rightarrow> double \<Rightarrow> double \<Rightarrow> int \<Rightarrow> 'e + double list \<times> double list"
where
  "smooth_exact_curve g t0 t_end num_points =
     (let num_points = (if num_points < 2 then 2 else num_points);
          step = (t_end - t0) / float_of_int (num_points - 1)
      in sample_loop g t0 step num_points 0 [] [])"

text \<open>
  The grid of the specification: point \<open>i\<close> of a sampling with \<open>num_points\<close> points is
  \<open>t0 + i * (t_end - t0) / (num_points - 1)\<close>, with \<open>num_points\<close> clamped to 2, computed as the
  code computes it.
\<close>

definition grid_point :: "double \<Rightarrow> double \<Rightarrow> int \<Rightarrow> nat \<Rightarrow> double" where
  "grid_point t0 t_end num_points i =
     t0 + float_of_int (int i) * ((t_end - t0) / float_of_int (max 2 num_points - 1))"


section \<open>The error analyzer\<close>

text \<open>
  \<^verbatim>\<open>compute_max_error(g, t_values, y_values)\<close> walks the index \<open>i\<close> over \<^verbatim>\<open>len(t_values)\<close>;
  \<^verbatim>\<open>y_values[i]\<close> raises \<^verbatim>\<open>IndexError\<close> on a shorter list, before \<open>g\<close> is called, and an
  exception of \<open>g\<close> is not caught.
\<close>

datatype 'e raised = IndexError | Raised 'e

function max_error_loop ::
  "(double \<Rightarrow> 'e + double) \<Rightarrow> double list \<Rightarrow> double list \<Rightarrow> nat \<Rightarrow> double \<Rightarrow> nat \<Rightarrow>
   'e raised + double \<times> nat"
where
  "max_error_loop g t_values y_values i max_err compared =
     (if i < length t_values then
        (if i < length y_values then
           (case g (t_values ! i) of
              Inl e \<Rightarrow> Inl (Raised e)
            | Inr y_true \<Rightarrow>
                max_error_loop g t_values y_values (i + 1)
                  (if \<bar>y_values ! i - y_true\<bar> > max_err then \<bar>y_values ! i - y_true\<bar> else max_err)
                  (compared + 1))
         else Inl IndexError)
      else Inr (max_err, compared))"
  by pat_completeness auto
termination
  by (relation "measure (\<lambda>(g, t_values, y_values, i, max_err, compared). length t_values - i)") auto

definition compute_max_error ::
  "(double \<Rightarrow> 'e + double) \<Rightarrow> double list \<Rightarrow> double list \<Rightarrow> 'e raised + double \<times> nat"
where
  "compute_max_error g t_values y_values = max_error_loop g t_values y_values 0 0 0"

section \<open>The expression sandbox and the function adapters\<close>





datatype boolop = And | Or
















section \<open>Rounding: powers of two, the binary exponent, monotonicity, idempotence\<close>

lemma pow2_powi: "pow2 e = 2 powi e"
  by (simp add: pow2_def power_int_def power_one_over inverse_eq_divide)

lemma pow2_pos: "0 < pow2 e"
  by (simp add: pow2_powi)


lemma pow2_mono: "a \<le> b \<Longrightarrow> pow2 a \<le> pow2 b"
  by (simp add: pow2_powi power_int_increasing)

lemma pow2_strict_mono: "a < b \<Longrightarrow> pow2 a < pow2 b"
  by (simp add: pow2_powi power_int_strict_increasing)

lemma pow2_of_int: "0 \<le> e \<Longrightarrow> pow2 e = of_int (2 ^ nat e)"
  by (simp add: pow2_def)









lemma exponent_bounds:
  assumes "x \<noteq> 0"
  shows "pow2 (exponent x) \<le> \<bar>x\<bar>" and "\<bar>x\<bar> < pow2 (exponent x + 1)"
proof -
  have both: "pow2 (exponent x) \<le> \<bar>x\<bar> \<and> \<bar>x\<bar> < pow2 (exponent x + 1)"
  proof (cases "1 \<le> \<bar>x\<bar>")
    case True
    define n where "n = \<lfloor>\<bar>x\<bar>\<rfloor>"
    have n1: "1 \<le> n" using True by (simp add: n_def le_floor_iff)
    then have n0: "0 < n" by simp
    have e: "exponent x = bitlen n - 1" using True by (simp add: exponent_def n_def)
    have b1: "1 \<le> bitlen n" using n0 by (simp add: bitlen_alt_def)
    from bitlen_bounds [OF n0] have lo: "2 ^ nat (bitlen n - 1) \<le> n" and hi: "n < 2 ^ nat (bitlen n)"
      by auto
    have "pow2 (bitlen n - 1) = of_int (2 ^ nat (bitlen n - 1))" using b1 by (simp add: pow2_of_int)
    also have "\<dots> \<le> of_int n" using lo by (simp only: of_int_le_iff)
    also have "\<dots> \<le> \<bar>x\<bar>" by (simp add: n_def)
    finally have A: "pow2 (exponent x) \<le> \<bar>x\<bar>" by (simp add: e)
    have "n + 1 \<le> 2 ^ nat (bitlen n)" using hi by simp
    then have "real_of_int (n + 1) \<le> of_int (2 ^ nat (bitlen n))" by (simp only: of_int_le_iff)
    moreover have "\<bar>x\<bar> < of_int (n + 1)" by (simp add: n_def)
    moreover have "pow2 (bitlen n) = of_int (2 ^ nat (bitlen n))" using b1 by (simp add: pow2_of_int)
    ultimately have B: "\<bar>x\<bar> < pow2 (exponent x + 1)" by (simp add: e)
    from A B show ?thesis ..
  next
    case False
    define y where "y = 1 / \<bar>x\<bar>"
    define n where "n = \<lfloor>y\<rfloor>"
    have xpos: "0 < \<bar>x\<bar>" using assms by simp
    have y1: "1 < y" using False xpos by (simp add: y_def)
    have n1: "1 \<le> n" using y1 by (simp add: n_def le_floor_iff)
    have xy: "\<bar>x\<bar> = 1 / y" by (simp add: y_def)
    show ?thesis
    proof (cases "of_int n = y")
      case True
      define m where "m = n - 1"
      have "1 < n" using True y1 by simp
      then have m0: "0 < m" by (simp add: m_def)
      have e: "exponent x = - bitlen m" using False True by (simp add: exponent_def Let_def y_def n_def m_def)
      have b1: "1 \<le> bitlen m" using m0 by (simp add: bitlen_alt_def)
      from bitlen_bounds [OF m0] have lo: "2 ^ nat (bitlen m - 1) \<le> m" and hi: "m < 2 ^ nat (bitlen m)"
        by auto
      have "n \<le> 2 ^ nat (bitlen m)" using hi by (simp add: m_def)
      then have "real_of_int n \<le> of_int (2 ^ nat (bitlen m))" by (simp only: of_int_le_iff)
      then have yle: "y \<le> pow2 (bitlen m)" using b1 True by (simp add: pow2_of_int)
      have "2 ^ nat (bitlen m - 1) < n" using lo by (simp add: m_def)
      then have "real_of_int (2 ^ nat (bitlen m - 1)) < of_int n" by (simp only: of_int_less_iff)
      then have ygt: "pow2 (bitlen m - 1) < y" using b1 True by (simp add: pow2_of_int)
      have inv: "pow2 (- k) = 1 / pow2 k" for k by (simp add: pow2_powi power_int_minus_divide)
      have A: "pow2 (exponent x) \<le> \<bar>x\<bar>"
        using yle y1 pow2_pos [of "bitlen m"] by (simp add: e inv xy frac_le)
      have "1 / y < 1 / pow2 (bitlen m - 1)"
        using ygt pow2_pos [of "bitlen m - 1"] by (simp add: frac_less2)
      then have B: "\<bar>x\<bar> < pow2 (exponent x + 1)"
        using inv [of "bitlen m - 1"] by (simp add: e xy)
      from A B show ?thesis ..
    next
      case neq: False
      have n0: "0 < n" using n1 by simp
      have e: "exponent x = - bitlen n" using False neq by (simp add: exponent_def Let_def y_def n_def)
      have b1: "1 \<le> bitlen n" using n0 by (simp add: bitlen_alt_def)
      from bitlen_bounds [OF n0] have lo: "2 ^ nat (bitlen n - 1) \<le> n" and hi: "n < 2 ^ nat (bitlen n)"
        by auto
      have "y < of_int (n + 1)" by (simp add: n_def)
      moreover have "n + 1 \<le> 2 ^ nat (bitlen n)" using hi by simp
      then have "real_of_int (n + 1) \<le> of_int (2 ^ nat (bitlen n))" by (simp only: of_int_le_iff)
      ultimately have yle: "y \<le> pow2 (bitlen n)" using b1 by (simp add: pow2_of_int)
      have "of_int n \<le> y" by (simp add: n_def)
      with neq have ny: "of_int n < y" by simp
      have lo': "real_of_int (2 ^ nat (bitlen n - 1)) \<le> of_int n" using lo by (simp only: of_int_le_iff)
      have p: "pow2 (bitlen n - 1) = of_int (2 ^ nat (bitlen n - 1))" using b1 by (simp add: pow2_of_int)
      have "real_of_int (2 ^ nat (bitlen n - 1)) < y" using ny lo' by linarith
      then have ygt: "pow2 (bitlen n - 1) < y" by (simp only: p)
      have inv: "pow2 (- k) = 1 / pow2 k" for k by (simp add: pow2_powi power_int_minus_divide)
      have A: "pow2 (exponent x) \<le> \<bar>x\<bar>"
        using yle y1 pow2_pos [of "bitlen n"] by (simp add: e inv xy frac_le)
      have "1 / y < 1 / pow2 (bitlen n - 1)"
        using ygt pow2_pos [of "bitlen n - 1"] by (simp add: frac_less2)
      then have B: "\<bar>x\<bar> < pow2 (exponent x + 1)"
        using inv [of "bitlen n - 1"] by (simp add: e xy)
      from A B show ?thesis ..
    qed
  qed
  from both show "pow2 (exponent x) \<le> \<bar>x\<bar>" and "\<bar>x\<bar> < pow2 (exponent x + 1)" by auto
qed


lemma exponent_unique:
  assumes "pow2 e \<le> \<bar>x\<bar>" and "\<bar>x\<bar> < pow2 (e + 1)"
  shows "exponent x = e"
proof -
  have x0: "x \<noteq> 0" using assms(1) pow2_pos [of e] by auto
  note b = exponent_bounds [OF x0]
  have "\<not> exponent x < e"
  proof
    assume "exponent x < e"
    then have "pow2 (exponent x + 1) \<le> pow2 e" by (intro pow2_mono) simp
    with b(2) assms(1) show False by simp
  qed
  moreover have "\<not> e < exponent x"
  proof
    assume "e < exponent x"
    then have "pow2 (e + 1) \<le> pow2 (exponent x)" by (intro pow2_mono) simp
    with b(1) assms(2) show False by simp
  qed
  ultimately show ?thesis by simp
qed
















section \<open>Evaluation of float arithmetic\<close>

lemmas float_eval =
  rnd_def exponent_def pow2_def round_half_even_def Let_def compute_bitlen
  float_of_def float_of_int_def zero_double_def plus_double_def minus_double_def
  times_double_def divide_double_def abs_double_def less_eq_double_def less_double_def

lemma euler_loop_exit:
  "\<not> t < t_end \<Longrightarrow> euler_loop f t_end dt t y ts ys = Some (ts, ys, None)"
  by (subst euler_loop.simps) simp

lemma euler_loop_fail:
  "t < t_end \<Longrightarrow> f y t = Inl e \<Longrightarrow> euler_loop f t_end dt t y ts ys = Some (ts, ys, Some (y, t, e))"
  by (subst euler_loop.simps) simp

lemma euler_loop_step:
  "t < t_end \<Longrightarrow> f y t = Inr s \<Longrightarrow>
   euler_loop f t_end dt t y ts ys =
   euler_loop f t_end dt (t + dt) (y + dt * s) (ts @ [t + dt]) (ys @ [y + dt * s])"
  by (subst euler_loop.simps) simp

lemma euler_loop_sound:
  assumes "euler_loop f t_end dt t y ts ys = Some res"
  shows "\<exists>us vs. res = (ts @ us, ys @ vs, snd (snd res)) \<and>
           recurrence f t_end dt (t # us) (y # vs) \<and>
           ending f t_end (t # us) (y # vs) (snd (snd res))"
proof (rule euler_loop.raw_induct [OF _ assms], goal_cases)
  case (1 loop f t_end dt t y ts ys res)
  show ?case
  proof (cases "t < t_end")
    case False
    with 1(2) have "res = (ts, ys, None)" by simp
    then have "res = (ts @ [], ys @ [], snd (snd res)) \<and>
           recurrence f t_end dt (t # []) (y # []) \<and>
           ending f t_end (t # []) (y # []) (snd (snd res))"
      using False by (simp add: ending_def)
    then show ?thesis by blast
  next
    case True
    show ?thesis
    proof (cases "f y t")
      case (Inl e)
      with True 1(2) have "res = (ts, ys, Some (y, t, e))" by simp
      then have "res = (ts @ [], ys @ [], snd (snd res)) \<and>
           recurrence f t_end dt (t # []) (y # []) \<and>
           ending f t_end (t # []) (y # []) (snd (snd res))"
        using True Inl by (simp add: ending_def)
      then show ?thesis by blast
    next
      case (Inr s)
      with True 1(2) have
        "loop f t_end dt (t + dt) (y + dt * s) (ts @ [t + dt]) (ys @ [y + dt * s]) = Some res"
        by simp
      from 1(1) [OF this] obtain us vs where
        r: "res = ((ts @ [t + dt]) @ us, (ys @ [y + dt * s]) @ vs, snd (snd res))" and
        c: "recurrence f t_end dt ((t + dt) # us) ((y + dt * s) # vs)" and
        e: "ending f t_end ((t + dt) # us) ((y + dt * s) # vs) (snd (snd res))"
        by blast
      have "res = (ts @ ((t + dt) # us), ys @ ((y + dt * s) # vs), snd (snd res))"
        using r by simp
      moreover have "recurrence f t_end dt (t # (t + dt) # us) (y # (y + dt * s) # vs)"
        using c True Inr by simp
      moreover have "ending f t_end (t # (t + dt) # us) (y # (y + dt * s) # vs) (snd (snd res))"
      proof -
        have "last (t # (t + dt) # us) = last ((t + dt) # us)"
          and "last (y # (y + dt * s) # vs) = last ((y + dt * s) # vs)" by simp_all
        with e show ?thesis by (simp only: ending_def)
      qed
      ultimately show ?thesis by blast
    qed
  qed
qed


lemma euler_loop_t_run:
  assumes total: "\<And>y t. \<exists>s. f y t = Inr s"
  shows "t_run t_end dt n t = Some us \<Longrightarrow>
    \<exists>vs. euler_loop f t_end dt t y ts ys = Some (ts @ us, ys @ vs, None) \<and> length vs = length us"
proof (induction n arbitrary: t y ts ys us)
  case 0
  then show ?case by (auto simp: euler_loop_exit split: if_splits)
next
  case (Suc n)
  show ?case
  proof (cases "t < t_end")
    case False
    with Suc.prems show ?thesis by (simp add: euler_loop_exit)
  next
    case True
    from total obtain s where s: "f y t = Inr s" by blast
    from Suc.prems True obtain us' where
      us': "t_run t_end dt n (t + dt) = Some us'" and us: "us = (t + dt) # us'"
      by auto
    from Suc.IH [OF us', of "y + dt * s" "ts @ [t + dt]" "ys @ [y + dt * s]"]
    obtain vs where "euler_loop f t_end dt (t + dt) (y + dt * s) (ts @ [t + dt]) (ys @ [y + dt * s]) =
      Some ((ts @ [t + dt]) @ us', (ys @ [y + dt * s]) @ vs, None)" and "length vs = length us'"
      by blast
    then have "euler_loop f t_end dt t y ts ys = Some (ts @ us, ys @ ((y + dt * s) # vs), None) \<and>
      length ((y + dt * s) # vs) = length us"
      using True s us by (simp add: euler_loop_step)
    then show ?thesis by blast
  qed
qed

lemma euler_loop_invocation:
  "invocation f t_end dt n t y = Some (yk, tk) \<Longrightarrow> f yk tk = Inl e \<Longrightarrow>
    \<exists>us vs. euler_loop f t_end dt t y ts ys = Some (ts @ us, ys @ vs, Some (yk, tk, e)) \<and>
      length us = n \<and> length vs = n"
proof (induction n arbitrary: t y ts ys)
  case 0
  then show ?case by (auto simp: euler_loop_fail split: if_splits)
next
  case (Suc n)
  from Suc.prems(1) have lt: "t < t_end" by (simp split: if_splits)
  with Suc.prems(1) obtain s where s: "f y t = Inr s"
    and inv: "invocation f t_end dt n (t + dt) (y + dt * s) = Some (yk, tk)"
    by (auto split: sum.splits)
  from Suc.IH [OF inv Suc.prems(2), of "ts @ [t + dt]" "ys @ [y + dt * s]"]
  obtain us vs where "euler_loop f t_end dt (t + dt) (y + dt * s) (ts @ [t + dt]) (ys @ [y + dt * s]) =
      Some ((ts @ [t + dt]) @ us, (ys @ [y + dt * s]) @ vs, Some (yk, tk, e))"
    and "length us = n" and "length vs = n" by blast
  then have "euler_loop f t_end dt t y ts ys =
      Some (ts @ ((t + dt) # us), ys @ ((y + dt * s) # vs), Some (yk, tk, e)) \<and>
      length ((t + dt) # us) = Suc n \<and> length ((y + dt * s) # vs) = Suc n"
    using lt s by (simp add: euler_loop_step)
  then show ?case by blast
qed

section \<open>The integrator: claims\<close>

lemma recurrence_length: "recurrence f t_end dt ts ys \<Longrightarrow> length ts = length ys"
  by (induction f t_end dt ts ys rule: recurrence.induct) auto

lemma euler_method_sound:
  assumes "euler_method f t0 y0 t_end dt = Some (ts, ys, r)"
  shows "\<exists>us vs. ts = t0 # us \<and> ys = y0 # vs \<and> recurrence f t_end dt ts ys \<and> ending f t_end ts ys r"
  using euler_loop_sound [OF assms [unfolded euler_method_def]] by auto




lemma t_run_numeral:
  "t_run t_end dt (numeral k) t =
     (if t < t_end then map_option ((#) (t + dt)) (t_run t_end dt (pred_numeral k) (t + dt))
      else Some [])"
  by (simp add: numeral_eq_Suc)

lemma tenth_steps:
  "\<exists>us. t_run (float_of 5) (float_of (1 / 10)) 51 (float_of 0) = Some us \<and> length us = 51 \<and>
     us ! 49 = Double (2814749767106559 / 562949953421312) \<and>
     last us = Double (1435522381224345 / 281474976710656)"
  by (simp add: t_run_numeral float_eval)

text \<open>
  Claim C3. For \<open>t0 = 0\<close>, \<open>t_end = 5\<close>, \<open>delta_t = 0.1\<close> and an \<open>f\<close> that never raises, the
  claim is a trajectory of 51 points whose last \<open>t\<close> is 5.0 within \<open>1e-9\<close>. In float
  arithmetic fifty additions of \<open>0.1\<close> to \<open>0\<close> give \<open>4.999999999999998\<close>, which is still below
  \<open>5\<close>, so the loop takes one more step: the trajectory has 52 points and its last \<open>t\<close> is
  \<open>5.099999999999998\<close>. The comment above the loop says that the final point is \<open>t_end\<close> when
  \<open>t_end\<close> lines up with the step size.
\<close>

theorem euler_method_tenth_steps:
  assumes "\<And>y t. \<exists>s. f y t = Inr s"
  shows "\<exists>ts ys. euler_method f (float_of 0) y0 (float_of 5) (float_of (1 / 10)) = Some (ts, ys, None) \<and>
     length ts = 52 \<and> length ys = 52 \<and>
     ts ! 50 = Double (2814749767106559 / 562949953421312) \<and>
     last ts = Double (1435522381224345 / 281474976710656) \<and>
     1 / 10 ^ 9 < \<bar>val (last ts) - 5\<bar>"
proof -
  from tenth_steps obtain us where
    us: "t_run (float_of 5) (float_of (1 / 10)) 51 (float_of 0) = Some us" and len: "length us = 51"
    and u49: "us ! 49 = Double (2814749767106559 / 562949953421312)"
    and ul: "last us = Double (1435522381224345 / 281474976710656)" by blast
  from euler_loop_t_run [of f, OF assms us, of y0 "[float_of 0]" "[y0]"] obtain vs where
    run: "euler_method f (float_of 0) y0 (float_of 5) (float_of (1 / 10)) =
      Some ([float_of 0] @ us, [y0] @ vs, None)" and lv: "length vs = length us"
    unfolding euler_method_def by blast
  have ne: "us \<noteq> []" using len by auto
  have "([float_of 0] @ us) ! 50 = us ! 49" by simp
  moreover have "last ([float_of 0] @ us) = last us" using ne by simp
  ultimately show ?thesis using run len lv u49 ul by simp
qed

theorem euler_method_tenth_steps_witness:
  "\<exists>ts ys. euler_method (\<lambda>y t. Inr y :: unit + double) (float_of 0) (float_of 1) (float_of 5)
       (float_of (1 / 10)) = Some (ts, ys, None) \<and> length ts = 52 \<and>
     last ts = Double (1435522381224345 / 281474976710656)"
proof -
  have "\<exists>s. (\<lambda>y t. Inr y :: unit + double) y t = Inr s" for y t by simp
  from euler_method_tenth_steps [of "\<lambda>y t. Inr y :: unit + double" "float_of 1", OF this]
  show ?thesis by blast
qed

text \<open>
  Claim C4. If the \<open>(n+1)\<close>-th call of \<open>f\<close> in the run raises, \<open>euler_method\<close> returns, with the
  \<open>n + 1\<close> points accumulated so far (the initial point and the \<open>n\<close> successful steps), and
  reports the point and the exception. A failure at the third call gives three points.
\<close>

theorem euler_method_truncates:
  assumes "invocation f t_end dt n t0 y0 = Some (y, t)" and "f y t = Inl e"
  shows "\<exists>ts ys. euler_method f t0 y0 t_end dt = Some (ts, ys, Some (y, t, e)) \<and>
           length ts = Suc n \<and> length ys = Suc n \<and> hd ts = t0 \<and> hd ys = y0 \<and>
           recurrence f t_end dt ts ys"
proof -
  from euler_loop_invocation [OF assms, of "[t0]" "[y0]"] obtain us vs where
    run: "euler_method f t0 y0 t_end dt = Some ([t0] @ us, [y0] @ vs, Some (y, t, e))"
    and len: "length us = n" "length vs = n"
    unfolding euler_method_def by blast
  from euler_method_sound [OF run] have "recurrence f t_end dt ([t0] @ us) ([y0] @ vs)" by blast
  with run len show ?thesis by simp
qed

theorem euler_method_truncates_witness:
  "invocation (\<lambda>y t. if t < float_of 1 then Inr y else Inl ()) (float_of 5) (float_of (1 / 2)) 2
      (float_of 0) (float_of 1) = Some (float_of (9 / 4), float_of 1) \<and>
   euler_method (\<lambda>y t. if t < float_of 1 then Inr y else Inl ()) (float_of 0) (float_of 1) (float_of 5)
      (float_of (1 / 2)) =
     Some ([float_of 0, float_of (1 / 2), float_of 1], [float_of 1, float_of (3 / 2), float_of (9 / 4)],
           Some (float_of (9 / 4), float_of 1, ()))"
proof -
  let ?f = "\<lambda>y t. if t < float_of 1 then Inr y else Inl ()"
  have inv: "invocation ?f (float_of 5) (float_of (1 / 2)) 2 (float_of 0) (float_of 1) =
      Some (float_of (9 / 4), float_of 1)"
    by (simp add: numeral_2_eq_2 float_eval)
  have fail: "?f (float_of (9 / 4)) (float_of 1) = Inl ()" by simp
  from euler_method_truncates [OF inv fail] obtain ts ys where
    run: "euler_method ?f (float_of 0) (float_of 1) (float_of 5) (float_of (1 / 2)) =
      Some (ts, ys, Some (float_of (9 / 4), float_of 1, ()))" and "length ts = Suc 2" by blast
  have "euler_method ?f (float_of 0) (float_of 1) (float_of 5) (float_of (1 / 2)) =
     Some ([float_of 0, float_of (1 / 2), float_of 1], [float_of 1, float_of (3 / 2), float_of (9 / 4)],
           Some (float_of (9 / 4), float_of 1, ()))"
    by (simp add: euler_method_def euler_loop.simps float_eval)
  with run inv show ?thesis by simp
qed

text \<open>
  Claim C10. Whatever the input, a trajectory that \<open>euler_method\<close> returns is not empty, has as
  many \<open>y\<close>-values as \<open>t\<close>-values, and begins with \<open>(t0, y0)\<close>. When \<open>t_end \<le> t0\<close> the integrator
  returns the single point \<open>(t0, y0)\<close>, and so it does, with the failure reported, when \<open>f\<close>
  raises at its first call.
\<close>

theorem euler_method_first_point:
  "(euler_method f t0 y0 t_end dt = Some (ts, ys, r) \<longrightarrow>
      ts \<noteq> [] \<and> ys \<noteq> [] \<and> hd ts = t0 \<and> hd ys = y0 \<and> length ts = length ys) \<and>
   (t_end \<le> t0 \<longrightarrow> euler_method f t0 y0 t_end dt = Some ([t0], [y0], None)) \<and>
   (t0 < t_end \<and> f y0 t0 = Inl e \<longrightarrow>
      euler_method f t0 y0 t_end dt = Some ([t0], [y0], Some (y0, t0, e)))"
proof (intro conjI impI)
  assume a: "euler_method f t0 y0 t_end dt = Some (ts, ys, r)"
  from euler_method_sound [OF a] obtain us vs where
    "ts = t0 # us" "ys = y0 # vs" "recurrence f t_end dt ts ys" by blast
  then show "ts \<noteq> []" "ys \<noteq> []" "hd ts = t0" "hd ys = y0" "length ts = length ys"
    by (auto dest: recurrence_length)
next
  assume "t_end \<le> t0"
  then have "\<not> t0 < t_end" by simp
  then show "euler_method f t0 y0 t_end dt = Some ([t0], [y0], None)"
    unfolding euler_method_def by (rule euler_loop_exit)
next
  assume "t0 < t_end \<and> f y0 t0 = Inl e"
  then show "euler_method f t0 y0 t_end dt = Some ([t0], [y0], Some (y0, t0, e))"
    unfolding euler_method_def by (simp add: euler_loop_fail)
qed

theorem euler_method_first_point_witness:
  "hd [float_of 0, float_of (1 / 2), float_of 1] = float_of 0 \<and>
   length [float_of 0, float_of (1 / 2), float_of 1] = length [float_of 1, float_of (3 / 2), float_of (9 / 4)] \<and>
   float_of 1 \<le> float_of 3 \<and>
   euler_method (\<lambda>y t. Inr y :: unit + double) (float_of 3) (float_of 1) (float_of 1) (float_of (1 / 2)) =
     Some ([float_of 3], [float_of 1], None) \<and>
   float_of 0 < float_of 1 \<and>
   euler_method (\<lambda>y t. Inl () :: unit + double) (float_of 0) (float_of 1) (float_of 1) (float_of (1 / 2)) =
     Some ([float_of 0], [float_of 1], Some (float_of 1, float_of 0, ()))"
proof -
  let ?f = "\<lambda>y t. Inr y :: unit + double"
  let ?g = "\<lambda>y t. Inl () :: unit + double"
  have run: "euler_method ?f (float_of 0) (float_of 1) (float_of 1) (float_of (1 / 2)) =
      Some ([float_of 0, float_of (1 / 2), float_of 1],
            [float_of 1, float_of (3 / 2), float_of (9 / 4)], None)"
    by (simp add: euler_method_def euler_loop.simps float_eval)
  have le: "float_of 1 \<le> float_of 3" and lt: "float_of 0 < float_of 1" by (simp_all add: float_eval)
  from euler_method_first_point [of ?f "float_of 0" "float_of 1" "float_of 1" "float_of (1 / 2)"
      "[float_of 0, float_of (1 / 2), float_of 1]" "[float_of 1, float_of (3 / 2), float_of (9 / 4)]" None]
    run
  have a: "hd [float_of 0, float_of (1 / 2), float_of 1] = float_of 0 \<and>
   length [float_of 0, float_of (1 / 2), float_of 1] = length [float_of 1, float_of (3 / 2), float_of (9 / 4)]"
    by blast
  from euler_method_first_point [of ?f "float_of 3" "float_of 1" "float_of 1" "float_of (1 / 2)"] le
  have b: "euler_method ?f (float_of 3) (float_of 1) (float_of 1) (float_of (1 / 2)) =
     Some ([float_of 3], [float_of 1], None)" by blast
  from euler_method_first_point [of ?g "float_of 0" "float_of 1" "float_of 1" "float_of (1 / 2)" _ _ _ "()"] lt
  have c: "euler_method ?g (float_of 0) (float_of 1) (float_of 1) (float_of (1 / 2)) =
     Some ([float_of 0], [float_of 1], Some (float_of 1, float_of 0, ()))" by blast
  from a b c le lt show ?thesis by blast
qed

text \<open>
  The integrator does not return on every input with \<open>delta_t > 0\<close> and \<open>t_end > t0\<close>: from
  \<open>t0 = 2\<^sup>5\<^sup>3\<close> the sum \<open>t + 1.0\<close> rounds back to \<open>t\<close>, and with an \<open>f\<close> that never raises the
  loop runs forever. This is why the claims above speak of the trajectories that are returned,
  and state separately when one is.
\<close>

lemma absorbed: "float_of 9007199254740992 + float_of 1 = float_of 9007199254740992"
  by (simp add: float_eval)

lemma euler_loop_absorbed:
  assumes "euler_loop f t_end dt t y ts ys = Some res"
  shows "\<not> (t < t_end \<and> t + dt = t \<and> (\<forall>y. \<exists>s. f y t = Inr s))"
proof (rule euler_loop.raw_induct [OF _ assms], goal_cases)
  case (1 loop f t_end dt t y ts ys res)
  show ?case
  proof
    assume a: "t < t_end \<and> t + dt = t \<and> (\<forall>y. \<exists>s. f y t = Inr s)"
    then obtain s where s: "f y t = Inr s" by blast
    with a 1(2) have "loop f t_end dt (t + dt) (y + dt * s) (ts @ [t + dt]) (ys @ [y + dt * s]) = Some res"
      by simp
    from 1(1) [OF this] a show False by simp
  qed
qed

lemma euler_method_diverges:
  "euler_method (\<lambda>y t. Inr (float_of 0) :: unit + double) (float_of 9007199254740992) (float_of 0)
     (float_of 18014398509481984) (float_of 1) = None"
proof (cases "euler_method (\<lambda>y t. Inr (float_of 0) :: unit + double) (float_of 9007199254740992) (float_of 0)
     (float_of 18014398509481984) (float_of 1)")
  case None
  then show ?thesis .
next
  case (Some res)
  have "float_of 9007199254740992 < float_of 18014398509481984" by (simp add: float_eval)
  with euler_loop_absorbed [OF Some [unfolded euler_method_def]] absorbed show ?thesis by simp
qed

section \<open>The sampler: claims\<close>

declare sample_loop.simps [simp del]



lemma sample_loop_Inl:
  "i \<le> j \<Longrightarrow> j < n \<Longrightarrow> g (t0 + float_of_int j * step) = Inl e \<Longrightarrow>
     \<exists>e'. sample_loop g t0 step n i T Y = Inl e'"
proof (induction g t0 step n i T Y rule: sample_loop.induct)
  case (1 g t0 step n i T Y)
  from "1.prems" have lt: "i < n" by simp
  show ?case
  proof (cases "g (t0 + float_of_int i * step)")
    case (Inl a)
    with lt show ?thesis by (simp add: sample_loop.simps)
  next
    case (Inr b)
    with "1.prems" have "i \<noteq> j" by auto
    with "1.prems" have "i + 1 \<le> j" by simp
    from "1.IH" [OF lt Inr this "1.prems"(2,3)] show ?thesis
      using lt Inr by (simp add: sample_loop.simps)
  qed
qed


lemma clamp_max: "(if n < 2 then 2 else n) = max 2 (n :: int)"
  by simp

lemma smooth_exact_curve_unfold:
  "smooth_exact_curve g t0 t_end n =
     sample_loop g t0 ((t_end - t0) / float_of_int (max 2 n - 1)) (max 2 n) 0 [] []"
  by (simp add: smooth_exact_curve_def Let_def clamp_max del: max.absorb1 max.absorb2 max.absorb3 max.absorb4)








text \<open>
  Claim C6. If \<open>g\<close> raises at any grid point, \<open>smooth_exact_curve\<close> raises: its result is an
  exception and never a curve, partial or whole.
\<close>

theorem smooth_exact_curve_all_or_nothing:
  assumes "i < nat (max 2 n)" and "g (grid_point t0 t_end n i) = Inl e"
  shows "(\<exists>e'. smooth_exact_curve g t0 t_end n = Inl e') \<and>
         (\<forall>T Y. smooth_exact_curve g t0 t_end n \<noteq> Inr (T, Y))"
proof -
  have "0 \<le> int i" and "int i < max 2 n" using assms(1) by simp_all
  moreover have "g (t0 + float_of_int (int i) * ((t_end - t0) / float_of_int (max 2 n - 1))) = Inl e"
    using assms(2) by (simp add: grid_point_def)
  ultimately have "\<exists>e'. sample_loop g t0 ((t_end - t0) / float_of_int (max 2 n - 1)) (max 2 n) 0 [] [] = Inl e'"
    by (rule sample_loop_Inl)
  then have "\<exists>e'. smooth_exact_curve g t0 t_end n = Inl e'" by (simp only: smooth_exact_curve_unfold)
  then show ?thesis by auto
qed

theorem smooth_exact_curve_all_or_nothing_witness:
  "grid_point (float_of 2) (float_of 10) 5 2 = float_of 6 \<and>
   smooth_exact_curve (\<lambda>t. if t < float_of 5 then Inr t else Inl ()) (float_of 2) (float_of 10) 5 = Inl ()"
proof -
  let ?g = "\<lambda>t. if t < float_of 5 then Inr t else Inl ()"
  have gp: "grid_point (float_of 2) (float_of 10) 5 2 = float_of 6"
    by (simp add: grid_point_def float_eval)
  have "?g (grid_point (float_of 2) (float_of 10) 5 2) = Inl ()"
    unfolding gp by (simp add: float_eval)
  from smooth_exact_curve_all_or_nothing [of 2 5 ?g "float_of 2" "float_of 10" "()", OF _ this]
  have "\<exists>e'. smooth_exact_curve ?g (float_of 2) (float_of 10) 5 = Inl e'" by simp
  then have "smooth_exact_curve ?g (float_of 2) (float_of 10) 5 = Inl ()" by simp
  with gp show ?thesis by simp
qed

section \<open>The error analyzer: claims\<close>

declare max_error_loop.simps [simp del]

lemma abs_double_nonneg: "0 \<le> \<bar>x :: double\<bar>"
  by (simp add: less_eq_double_def abs_double_def zero_double_def)

lemma max_error_loop_ok:
  assumes ok: "\<forall>t \<in> set ts. \<not> isl (g t)" and len: "length ys = length ts"
  shows "i \<le> length ts \<Longrightarrow>
    max_error_loop g ts ys i m c =
      Inr (fold max (drop i (map2 (\<lambda>t y. \<bar>y - projr (g t)\<bar>) ts ys)) m, c + (length ts - i))"
proof (induction "length ts - i" arbitrary: i m c)
  case 0
  then have "i = length ts" by simp
  then show ?case using len by (simp add: max_error_loop.simps)
next
  case (Suc k)
  then have lt: "i < length ts" by simp
  with len have lty: "i < length ys" by simp
  from lt ok have "\<not> isl (g (ts ! i))" by simp
  then obtain v where v: "g (ts ! i) = Inr v" by (cases "g (ts ! i)") auto
  let ?errs = "map2 (\<lambda>t y. \<bar>y - projr (g t)\<bar>) ts ys"
  let ?err = "\<bar>ys ! i - v\<bar>"
  have li: "i < length ?errs" using lt len by simp
  have nth: "?errs ! i = ?err" using lt lty v by simp
  have dr: "drop i ?errs = ?err # drop (Suc i) ?errs"
    using Cons_nth_drop_Suc [OF li] nth by simp
  have mx: "(if ?err > m then ?err else m) = max ?err m" by (auto simp: max_def)
  have k: "k = length ts - (i + 1)" using Suc(2) by simp
  have "max_error_loop g ts ys i m c = max_error_loop g ts ys (i + 1) (max ?err m) (c + 1)"
    using lt lty v mx by (subst max_error_loop.simps) simp
  also have "\<dots> = Inr (fold max (drop (i + 1) ?errs) (max ?err m), c + 1 + (length ts - (i + 1)))"
    using lt by (intro Suc(1) [OF k]) simp
  also have "\<dots> = Inr (fold max (drop i ?errs) m, c + (length ts - i))"
    using lt by (simp add: dr)
  finally show ?case .
qed

lemma max_error_loop_fail:
  assumes len: "length ys = length ts"
  shows "i \<le> j \<Longrightarrow> j < length ts \<Longrightarrow> isl (g (ts ! j)) \<Longrightarrow>
    \<exists>e. max_error_loop g ts ys i m c = Inl (Raised e)"
proof (induction "length ts - i" arbitrary: i m c)
  case 0
  then show ?case by simp
next
  case (Suc k)
  then have lt: "i < length ts" by simp
  with len have lty: "i < length ys" by simp
  show ?case
  proof (cases "g (ts ! i)")
    case (Inl e)
    with lt lty show ?thesis by (subst max_error_loop.simps) simp
  next
    case (Inr v)
    with Suc.prems have "i \<noteq> j" by auto
    with Suc.prems have ij: "i + 1 \<le> j" by simp
    have k: "k = length ts - (i + 1)" using Suc(2) by simp
    from Suc(1) [OF k ij Suc.prems(2,3)] show ?thesis
      using lt lty Inr by (subst max_error_loop.simps) simp
  qed
qed

lemma Max_insert_zero:
  assumes "xs \<noteq> []" and "\<forall>x \<in> set xs. (0 :: double) \<le> x"
  shows "Max (set (0 # xs)) = Max (set xs)"
proof -
  from assms(1) obtain x where x: "x \<in> set xs" by (cases xs) auto
  with assms(2) have "0 \<le> x" by blast
  also have "x \<le> Max (set xs)" using x by simp
  finally have "0 \<le> Max (set xs)" .
  moreover have "set xs \<noteq> {}" using assms(1) by simp
  ultimately show ?thesis by (simp add: max_def)
qed

text \<open>
  Claim C7. For a trajectory (a non-empty list of points, as many \<open>y\<close>-values as \<open>t\<close>-values)
  on which \<open>g\<close> succeeds at every point, \<open>compute_max_error\<close> returns the maximum of
  \<open>\<bar>y\<^sub>i - g(t\<^sub>i)\<bar>\<close> over the points of the trajectory, on the trajectory's own grid, and the
  number of points. If \<open>g\<close> raises at some point of the trajectory, \<open>compute_max_error\<close> raises
  and returns no pair. For \<open>g(t) = t\<close> and the trajectory \<open>[(0, 1), (1, 2)]\<close> it returns
  \<open>(1.0, 2)\<close>.
\<close>

theorem compute_max_error_max:
  assumes "length ys = length ts" and "ts \<noteq> []"
  shows "((\<forall>t \<in> set ts. \<not> isl (g t)) \<longrightarrow>
            compute_max_error g ts ys =
              Inr (Max (set (map2 (\<lambda>t y. \<bar>y - projr (g t)\<bar>) ts ys)), length ts)) \<and>
         ((\<exists>t \<in> set ts. isl (g t)) \<longrightarrow> (\<exists>e. compute_max_error g ts ys = Inl (Raised e))) \<and>
         compute_max_error (\<lambda>t. Inr t) [float_of 0, float_of 1] [float_of 1, float_of 2] =
           Inr (float_of 1, 2)"
proof (intro conjI impI)
  let ?errs = "map2 (\<lambda>t y. \<bar>y - projr (g t)\<bar>) ts ys"
  assume ok: "\<forall>t \<in> set ts. \<not> isl (g t)"
  have ne: "?errs \<noteq> []" using assms by (cases ts; cases ys) auto
  have nn: "\<forall>x \<in> set ?errs. 0 \<le> x" by (auto simp: abs_double_nonneg dest!: set_zip_leftD [rotated -1] simp: in_set_zip)
  have "compute_max_error g ts ys = Inr (fold max ?errs 0, length ts)"
    unfolding compute_max_error_def using max_error_loop_ok [OF ok assms(1), of 0 0 0] by simp
  also have "fold max ?errs 0 = Max (set (0 # ?errs))" by (simp only: Max.set_eq_fold)
  also have "\<dots> = Max (set ?errs)" using ne nn by (rule Max_insert_zero)
  finally show "compute_max_error g ts ys = Inr (Max (set ?errs), length ts)" .
next
  assume "\<exists>t \<in> set ts. isl (g t)"
  then obtain j where "j < length ts" "isl (g (ts ! j))" by (auto simp: in_set_conv_nth)
  from max_error_loop_fail [of ys ts 0 j g 0 0, OF assms(1) _ this]
  show "\<exists>e. compute_max_error g ts ys = Inl (Raised e)" by (simp add: compute_max_error_def)
next
  show "compute_max_error (\<lambda>t. Inr t) [float_of 0, float_of 1] [float_of 1, float_of 2] =
           Inr (float_of 1, 2)"
    by (simp add: compute_max_error_def max_error_loop.simps float_eval)
qed


theorem compute_max_error_max_witness:
  "compute_max_error (\<lambda>t. Inr t :: unit + double) [float_of 0, float_of 1] [float_of 1, float_of 2] =
     Inr (Max (set (map2 (\<lambda>t y. \<bar>y - projr (Inr t :: unit + double)\<bar>)
            [float_of 0, float_of 1] [float_of 1, float_of 2])), length [float_of 0, float_of 1]) \<and>
   (\<exists>e. compute_max_error (\<lambda>t. if t < float_of 1 then Inr t else Inl ())
      [float_of 0, float_of 1] [float_of 1, float_of 2] = Inl (Raised (e :: unit)))"
proof -
  let ?g = "\<lambda>t. Inr t :: unit + double"
  let ?h = "\<lambda>t. if t < float_of 1 then Inr t else Inl () :: unit + double"
  let ?ts = "[float_of 0, float_of 1]"
  let ?ys = "[float_of 1, float_of 2]"
  have len: "length ?ys = length ?ts" and ne: "?ts \<noteq> []" by simp_all
  have ok: "\<forall>t \<in> set ?ts. \<not> isl (?g t)" by simp
  have bad: "\<exists>t \<in> set ?ts. isl (?h t)" by (simp add: float_eval)
  from compute_max_error_max [OF len ne, of ?g] ok
  have a: "compute_max_error ?g ?ts ?ys =
     Inr (Max (set (map2 (\<lambda>t y. \<bar>y - projr (?g t)\<bar>) ?ts ?ys)), length ?ts)" by blast
  from compute_max_error_max [OF len ne, of ?h] bad
  have b: "\<exists>e. compute_max_error ?h ?ts ?ys = Inl (Raised e)" by blast
  from a b show ?thesis by blast
qed

section \<open>Monotone \<open>t\<close>-values\<close>










section \<open>The sandbox and the adapters: claims\<close>










end
